theory Spec2Isabelle
  imports Complex_Main "HOL-Library.Word" "HOL-Library.Product_Lexorder"
begin

section \<open>Data model\<close>

text \<open>
  The C++ type \<open>int\<close> is a 32-bit two's complement integer. The language leaves signed
  overflow undefined; the model takes the result the usual targets compute: \<open>+\<close>, \<open>-\<close>
  and \<open>*\<close> on \<open>int32\<close> wrap around. \<open>sint\<close> reads the signed value and \<open><s\<close> is the
  signed comparison. \<open>int1dvec_t\<close> and \<open>int2dvec_t\<close> are vectors of such integers.
  \<open>double\<close> values are idealised as reals.
\<close>

type_synonym int32 = "32 word"
type_synonym int1dvec_t = "int32 list"
type_synonym int2dvec_t = "int32 list list"
type_synonym double1dvec_t = "real \<times> real"
type_synonym double2dvec_t = "(real \<times> real) \<times> (real \<times> real)"

text \<open>
  Reading a vector with \<open>operator[]\<close> beyond its size has no defined result; the model
  makes it a fault that ends the function.
\<close>

datatype fault = OutOfRange

section \<open>Geometry helpers\<close>

definition basis_2x2_dot_2d_vector :: "double2dvec_t \<Rightarrow> int1dvec_t \<Rightarrow> double1dvec_t" where
  \<comment> \<open>Modelled from the spec: \<open>math_functions.h\<close> is not part of the sources; this is the
      basis-matrix times integer-vector product, \<open>Am = i * A1 + j * A2\<close> with the
      basis vectors \<open>A1\<close>, \<open>A2\<close> the columns of the matrix.\<close>
  "basis_2x2_dot_2d_vector basis v =
     (case basis of ((a11, a12), (a21, a22)) \<Rightarrow>
        (a11 * real_of_int (sint (v ! 0)) + a12 * real_of_int (sint (v ! 1)),
         a21 * real_of_int (sint (v ! 0)) + a22 * real_of_int (sint (v ! 1))))"

definition rotate_2d_vector :: "double1dvec_t \<Rightarrow> real \<Rightarrow> double1dvec_t" where
  \<comment> \<open>Modelled from the spec: \<open>math_functions.h\<close> is not part of the sources; this is the
      rotation of a 2D vector by the angle \<open>theta\<close>.\<close>
  "rotate_2d_vector v theta =
     (case v of (x, y) \<Rightarrow> (x * cos theta - y * sin theta, x * sin theta + y * cos theta))"

definition get_distance :: "double1dvec_t \<Rightarrow> double1dvec_t \<Rightarrow> real" where
  \<comment> \<open>Modelled from the spec: \<open>math_functions.h\<close> is not part of the sources; this is the
      Euclidean distance between two vectors.\<close>
  "get_distance a b =
     (case a of (x1, y1) \<Rightarrow> case b of (x2, y2) \<Rightarrow> sqrt ((x1 - x2)\<^sup>2 + (y1 - y2)\<^sup>2))"

section \<open>Coincidence search\<close>

text \<open>
  \<open>for (int i = lo; i < bound; i++) body\<close>, threading the state the body updates.
  The test \<open>i < bound\<close> is signed; inside the loop \<open>i\<close> is below \<open>bound\<close>, so \<open>i++\<close>
  never wraps.
\<close>

function for_loop :: "int32 \<Rightarrow> int32 \<Rightarrow> (int32 \<Rightarrow> 's \<Rightarrow> 's) \<Rightarrow> 's \<Rightarrow> 's" where
  "for_loop i bound body s =
     (if i <s bound then for_loop (i + 1) bound body (body i s) else s)"
  by pat_completeness auto

termination
proof (relation "measure (\<lambda>(i, bound, body, s). nat (sint bound - sint i))")
  fix i bound :: int32 and body :: "int32 \<Rightarrow> 's \<Rightarrow> 's" and s :: 's
  assume a: "i <s bound"
  have "sint bound < 2 ^ 31" using sint_lt [of bound] by simp
  moreover have "- (2 ^ 31) \<le> sint i" using sint_ge [of i] by simp
  ultimately have "signed_take_bit 31 (sint i + 1) = sint i + 1"
    using a by (simp add: word_sless_alt signed_take_bit_int_eq_self)
  then have "sint (i + 1) = sint i + 1" by (simp add: sint_word_ariths)
  then show "((i + 1, bound, body, body i s), i, bound, body, s)
      \<in> measure (\<lambda>(i, bound, body, s). nat (sint bound - sint i))"
    using a by (simp add: word_sless_alt)
qed simp

declare for_loop.simps [simp del]

text \<open>
  \<open>find_coincidences\<close>. The four nested loops run in their sequential order: the
  \<open>ordered\<close> region around \<open>push_back\<close> appends the accepted rows in iteration order,
  and without OpenMP the pragmas are ignored. The message printed before the loops
  (\<open>nCombinations\<close>) does not influence the result and is left out.
\<close>

definition find_coincidences ::
  "double2dvec_t \<Rightarrow> double2dvec_t \<Rightarrow> real \<Rightarrow> int32 \<Rightarrow> int32 \<Rightarrow> real \<Rightarrow> int2dvec_t" where
  "find_coincidences A B theta Nmin Nmax tolerance =
     (let coincidences =
        for_loop Nmin (Nmax + 1) (\<lambda>i.
          for_loop Nmin (Nmax + 1) (\<lambda>j.
            for_loop Nmin (Nmax + 1) (\<lambda>k.
              for_loop Nmin (Nmax + 1) (\<lambda>l coincidences.
                let vecM = [i, j];
                    vecN = [k, l];
                    Am = basis_2x2_dot_2d_vector A vecM;
                    Bn = basis_2x2_dot_2d_vector B vecN;
                    RBn = rotate_2d_vector Bn theta;
                    norm' = get_distance Am RBn;
                    match = (norm' < tolerance);
                    all_equal = (i = j \<and> j = k \<and> k = l)
                in if match \<and> \<not> all_equal then coincidences @ [[i, j, k, l]]
                   else coincidences)))) []
      in if length coincidences > 0 then coincidences else [])"

section \<open>Unique pairs\<close>

definition find_gcd :: "int1dvec_t \<Rightarrow> nat \<Rightarrow> int" where
  \<comment> \<open>Modelled from the spec: \<open>math_functions.h\<close> is not part of the sources; this is the
      integer GCD of an N-element vector, the entries read as signed integers.\<close>
  "find_gcd arr n = fold (\<lambda>x g. gcd (sint x) g) (take n arr) 0"

text \<open>
  \<open>for (int i = lo; i < n; i++) body\<close> over the positions of a vector, where the body
  may read out of range: the first fault ends the loop. Vector sizes are taken to be
  below \<open>2^31\<close>, so the \<open>int\<close> index is a natural number that never wraps.
\<close>

function for_index :: "nat \<Rightarrow> nat \<Rightarrow> (nat \<Rightarrow> 's \<Rightarrow> fault + 's) \<Rightarrow> 's \<Rightarrow> fault + 's" where
  "for_index i n body s =
     (if i < n
      then (case body i s of Inl e \<Rightarrow> Inl e | Inr s' \<Rightarrow> for_index (i + 1) n body s')
      else Inr s)"
  by pat_completeness auto
termination
  by (relation "measure (\<lambda>(i, n, body, s). n - i)") auto

declare for_index.simps [simp del]

text \<open>
  \<open>find_unique_pairs\<close>. The rows \<open>coincidences[i]\<close> and \<open>coincidences[j]\<close> are read at
  the positions 0 to 3; a row with fewer than four entries is a fault. The determinants
  are computed in \<open>int\<close>, so they wrap around.
\<close>

definition find_unique_pairs :: "int2dvec_t \<Rightarrow> fault + int2dvec_t" where
  "find_unique_pairs coincidences =
     (case
        for_index 0 (length coincidences) (\<lambda>i.
          for_index (i + 1) (length coincidences) (\<lambda>j uniquePairs.
            if length (coincidences ! i) < 4 \<or> length (coincidences ! j) < 4
            then Inl OutOfRange
            else
              let m1 = coincidences ! i ! 0;
                  m2 = coincidences ! i ! 1;
                  n1 = coincidences ! i ! 2;
                  n2 = coincidences ! i ! 3;
                  m3 = coincidences ! j ! 0;
                  m4 = coincidences ! j ! 1;
                  n3 = coincidences ! j ! 2;
                  n4 = coincidences ! j ! 3;
                  detM = m1 * m4 - m2 * m3;
                  detN = n1 * n4 - n2 * n3
              in if 0 <s detM \<and> 0 <s detN
                 then
                   let subvec = [m1, m2, m3, m4, n1, n2, n3, n4];
                       gcd' = find_gcd subvec 8
                   in if \<bar>gcd'\<bar> = 1 then Inr (uniquePairs @ [subvec]) else Inr uniquePairs
                 else Inr uniquePairs)) []
      of Inl e \<Rightarrow> Inl e
       | Inr uniquePairs \<Rightarrow> Inr (if length uniquePairs > 0 then uniquePairs else []))"

section \<open>Supercells\<close>

text \<open>
  The atomic structures (\<open>Atoms\<close>) and the operations on them are outside the sources:
  the structure type is a type variable and its operations are parameters.
  \<open>standardize\<close> changes the structure in place and returns the space-group number, so
  here it returns both.
\<close>

record 'atoms structure_ops =
  make_supercell :: "'atoms \<Rightarrow> int2dvec_t \<Rightarrow> 'atoms"
  rotate_atoms_around_z :: "'atoms \<Rightarrow> real \<Rightarrow> 'atoms"
  stack_atoms :: "'atoms \<Rightarrow> 'atoms \<Rightarrow> real \<Rightarrow> real \<Rightarrow> 'atoms"
  standardize :: "'atoms \<Rightarrow> int32 \<Rightarrow> int32 \<Rightarrow> real \<Rightarrow> real \<Rightarrow> int32 \<times> 'atoms"
  area :: "'atoms \<Rightarrow> real"
  numAtom :: "'atoms \<Rightarrow> int"

text \<open>
  Modelled from the spec: the class \<open>Interface\<close> (\<open>atom_class.h\<close>) is not part of the
  sources. An interface holds the bottom-layer supercell, the rotated top-layer
  supercell, the stacked structure, the angle, the 3x3 matrices \<open>M\<close> and \<open>N\<close> and the
  space-group number, as its constructor receives them.
\<close>

record 'atoms Interface =
  bottomLayer :: 'atoms
  topLayer :: 'atoms
  stack :: 'atoms
  angle :: real
  matrixM :: int2dvec_t
  matrixN :: int2dvec_t
  spaceGroup :: int32

text \<open>A loop over the entries of a container, in iteration order, ended by a fault.\<close>

fun for_each :: "'a list \<Rightarrow> ('a \<Rightarrow> 's \<Rightarrow> fault + 's) \<Rightarrow> 's \<Rightarrow> fault + 's" where
  "for_each [] body s = Inr s"
| "for_each (x # xs) body s =
     (case body x s of Inl e \<Rightarrow> Inl e | Inr s' \<Rightarrow> for_each xs body s')"

text \<open>
  \<open>build_all_supercells\<close>. The map \<open>AnglesMN\<close> is the list of its entries
  \<open>(theta, pairs)\<close> in iteration order. A row is read at the positions 0 to 7; a row
  with fewer than eight entries is a fault.
\<close>

definition build_all_supercells ::
  "'atoms structure_ops \<Rightarrow> 'atoms \<Rightarrow> 'atoms \<Rightarrow> (real \<times> int2dvec_t) list \<Rightarrow> real \<Rightarrow> real \<Rightarrow>
   int32 \<Rightarrow> real \<Rightarrow> real \<Rightarrow> fault + 'atoms Interface list" where
  "build_all_supercells ops bottom top' AnglesMN weight distance no_idealize symprec
     angle_tolerance =
     for_each AnglesMN (\<lambda>entry stacks.
       let theta = fst entry;
           pairs = snd entry
       in for_index 0 (length pairs) (\<lambda>j stacks.
            let row = pairs ! j
            in if length row < 8 then Inl OutOfRange
               else
                 let M = [[row ! 0, row ! 1, 0], [row ! 2, row ! 3, 0], [0, 0, 1]];
                     N = [[row ! 4, row ! 5, 0], [row ! 6, row ! 7, 0], [0, 0, 1]];
                     bottomLayer = make_supercell ops bottom M;
                     topLayer = make_supercell ops top' N;
                     topLayerRot = rotate_atoms_around_z ops topLayer theta;
                     interface = stack_atoms ops bottomLayer topLayerRot weight distance;
                     standardized = standardize ops interface 1 no_idealize symprec
                        angle_tolerance;
                     spacegroup = fst standardized
                 in if spacegroup \<noteq> 0
                    then Inr (stacks @
                      [\<lparr>bottomLayer = bottomLayer, topLayer = topLayerRot,
                        stack = snd standardized, angle = theta, matrixM = M, matrixN = N,
                        spaceGroup = spacegroup\<rparr>])
                    else Inr stacks) stacks) []"

section \<open>Deduplication\<close>

definition equivalence_key :: "'atoms structure_ops \<Rightarrow> 'atoms Interface \<Rightarrow> int \<times> real \<times> int" where
  \<comment> \<open>Modelled from the spec: the comparison operators of \<open>Interface\<close>
      (\<open>atom_class.h\<close>) are not part of the sources; the equivalence key of an interface
      is its space-group number, the in-plane area of the stacked cell and its total
      atom count.\<close>
  "equivalence_key ops x = (sint (spaceGroup x), area ops (stack x), numAtom ops (stack x))"

definition interface_less :: "'atoms structure_ops \<Rightarrow> 'atoms Interface \<Rightarrow> 'atoms Interface \<Rightarrow> bool" where
  \<comment> \<open>Modelled from the spec: \<open>operator<\<close> of \<open>Interface\<close> is not part of the sources;
      the set-like container is keyed by the equivalence key, so one interface is below
      another when its key is, in the lexicographic order of the key's components.\<close>
  "interface_less ops a b \<longleftrightarrow> equivalence_key ops a < equivalence_key ops b"

text \<open>
  \<open>std::set\<close> as the list of its elements in ascending order. Inserting an element
  equivalent to one already present leaves the set unchanged, so of several equivalent
  elements of a range the first one is kept, as the common library implementations do.
\<close>

fun set_insert :: "('a \<Rightarrow> 'a \<Rightarrow> bool) \<Rightarrow> 'a \<Rightarrow> 'a list \<Rightarrow> 'a list" where
  "set_insert lt x [] = [x]"
| "set_insert lt x (y # ys) =
     (if lt x y then x # y # ys
      else if lt y x then y # set_insert lt x ys
      else y # ys)"

text \<open>The range constructor inserts the elements one after the other.\<close>

definition set_of_range :: "('a \<Rightarrow> 'a \<Rightarrow> bool) \<Rightarrow> 'a list \<Rightarrow> 'a list" where
  "set_of_range lt xs = fold (set_insert lt) xs []"

definition filter_supercells :: "'atoms structure_ops \<Rightarrow> 'atoms Interface list \<Rightarrow> 'atoms Interface list" where
  "filter_supercells ops stacks =
     (let s = set_of_range (interface_less ops) stacks;
          v = s
      in v)"

section \<open>Notions used in the statements\<close>

text \<open>The lexicographic order of rows, entries compared as signed integers.\<close>

fun lex_less :: "int1dvec_t \<Rightarrow> int1dvec_t \<Rightarrow> bool" where
  "lex_less (x # xs) (y # ys) = (x <s y \<or> (x = y \<and> lex_less xs ys))"
| "lex_less [] (y # ys) = True"
| "lex_less xs [] = False"

text \<open>The values a loop variable takes between its start and its bound.\<close>

definition srange :: "int32 \<Rightarrow> int32 \<Rightarrow> int32 list" where
  "srange lo bound = map word_of_int [sint lo .. sint bound - 1]"

text \<open>The acceptance test of the innermost loop body.\<close>

definition accepted ::
  "double2dvec_t \<Rightarrow> double2dvec_t \<Rightarrow> real \<Rightarrow> real \<Rightarrow> int32 \<Rightarrow> int32 \<Rightarrow> int32 \<Rightarrow> int32 \<Rightarrow> bool" where
  "accepted A B theta tolerance i j k l \<longleftrightarrow>
     get_distance (basis_2x2_dot_2d_vector A [i, j])
       (rotate_2d_vector (basis_2x2_dot_2d_vector B [k, l]) theta) < tolerance
     \<and> \<not> (i = j \<and> j = k \<and> k = l)"

text \<open>
  The 8-tuple built from the rows at positions \<open>i\<close> and \<open>j\<close>, and what the loop body
  has checked of a row it appends.
\<close>

definition pair_at :: "int2dvec_t \<Rightarrow> nat \<Rightarrow> nat \<Rightarrow> int1dvec_t" where
  "pair_at cs i j =
     [cs ! i ! 0, cs ! i ! 1, cs ! j ! 0, cs ! j ! 1, cs ! i ! 2, cs ! i ! 3, cs ! j ! 2, cs ! j ! 3]"

definition kept :: "int2dvec_t \<Rightarrow> int1dvec_t \<Rightarrow> bool" where
  "kept cs p \<longleftrightarrow>
     (\<exists>i j. i < j \<and> j < length cs \<and> 4 \<le> length (cs ! i) \<and> 4 \<le> length (cs ! j) \<and>
        p = pair_at cs i j \<and>
        0 <s p ! 0 * p ! 3 - p ! 1 * p ! 2 \<and> 0 <s p ! 4 * p ! 7 - p ! 5 * p ! 6 \<and>
        \<bar>find_gcd p 8\<bar> = 1)"

text \<open>The rows that the loop body appends for the positions \<open>i\<close> and \<open>j\<close>.\<close>

definition pair_rows :: "int2dvec_t \<Rightarrow> nat \<Rightarrow> nat \<Rightarrow> int2dvec_t" where
  "pair_rows cs i j =
     (let p = pair_at cs i j
      in if 0 <s p ! 0 * p ! 3 - p ! 1 * p ! 2 \<and> 0 <s p ! 4 * p ! 7 - p ! 5 * p ! 6 \<and>
            \<bar>find_gcd p 8\<bar> = 1
         then [p] else [])"

text \<open>
  The interface that the loop body of \<open>build_all_supercells\<close> computes for one pair at
  one angle, whatever its space-group number.
\<close>

definition supercell_matrices :: "int1dvec_t \<Rightarrow> int2dvec_t \<times> int2dvec_t" where
  "supercell_matrices row =
     ([[row ! 0, row ! 1, 0], [row ! 2, row ! 3, 0], [0, 0, 1]],
      [[row ! 4, row ! 5, 0], [row ! 6, row ! 7, 0], [0, 0, 1]])"

definition candidate ::
  "'atoms structure_ops \<Rightarrow> 'atoms \<Rightarrow> 'atoms \<Rightarrow> real \<Rightarrow> real \<Rightarrow> int32 \<Rightarrow> real \<Rightarrow> real \<Rightarrow>
   real \<Rightarrow> int1dvec_t \<Rightarrow> 'atoms Interface" where
  "candidate ops bottom top' weight distance no_idealize symprec angle_tolerance theta row =
     (let b = make_supercell ops bottom (fst (supercell_matrices row));
          t = rotate_atoms_around_z ops
                (make_supercell ops top' (snd (supercell_matrices row))) theta;
          st = standardize ops (stack_atoms ops b t weight distance) 1 no_idealize symprec
                 angle_tolerance
      in \<lparr>bottomLayer = b, topLayer = t, stack = snd st, angle = theta,
          matrixM = fst (supercell_matrices row), matrixN = snd (supercell_matrices row),
          spaceGroup = fst st\<rparr>)"

text \<open>Sample structure operations and interfaces, on which the theorems are run.\<close>

definition example_ops :: "nat structure_ops" where
  "example_ops = \<lparr>make_supercell = (\<lambda>a M. a * unat (M ! 0 ! 0)),
     rotate_atoms_around_z = (\<lambda>a theta. a),
     stack_atoms = (\<lambda>a b w d. a + b),
     standardize = (\<lambda>a p i s t. (if even a then 0 else 5, a)),
     area = (\<lambda>a. 1), numAtom = (\<lambda>a. int a)\<rparr>"

definition example_interface :: "nat \<Rightarrow> real \<Rightarrow> int32 \<Rightarrow> nat Interface" where
  "example_interface n theta sg =
     \<lparr>bottomLayer = 1, topLayer = 2, stack = n, angle = theta,
      matrixM = [[1, 0, 0], [0, 1, 0], [0, 0, 1]], matrixN = [[1, 0, 0], [0, 1, 0], [0, 0, 1]],
      spaceGroup = sg\<rparr>"

section \<open>Properties of the coincidence search\<close>

subsection \<open>The loops as list traversals\<close>

lemma sint_succ: "i <s (bound::int32) \<Longrightarrow> sint (i + 1) = sint i + 1"
proof -
  assume a: "i <s bound"
  have "sint bound < 2 ^ 31" using sint_lt [of bound] by simp
  moreover have "- (2 ^ 31) \<le> sint i" using sint_ge [of i] by simp
  ultimately have r: "- (2 ^ 31) \<le> sint i + 1 \<and> sint i + 1 < 2 ^ 31"
    using a by (simp add: word_sless_alt)
  have "sint (i + 1) = signed_take_bit 31 (sint i + 1)"
    by (simp add: sint_word_ariths)
  also have "\<dots> = sint i + 1"
    using r by (simp add: signed_take_bit_int_eq_self)
  finally show ?thesis .
qed

lemma for_loop_fold: "for_loop i bound body s = fold body (srange i bound) s"
proof (induction i bound body s rule: for_loop.induct)
  case (1 i bound body s)
  show ?case
  proof (cases "i <s bound")
    case True
    have "[sint i .. sint bound - 1] = sint i # [sint (i + 1) .. sint bound - 1]"
      using True by (simp add: sint_succ word_sless_alt upto_rec1)
    then show ?thesis
      using True 1 by (simp add: for_loop.simps [of i] srange_def)
  next
    case False
    then show ?thesis
      by (simp add: for_loop.simps [of i] srange_def word_sless_alt)
  qed
qed

lemma sint_word_of_int_range:
  "- (2 ^ 31) \<le> x \<Longrightarrow> x < 2 ^ 31 \<Longrightarrow> sint (word_of_int x :: int32) = x"
  by (simp add: sint_sbintrunc' signed_take_bit_int_eq_self)

lemma set_srange: "set (srange lo bound) = {i. sint lo \<le> sint i \<and> sint i < sint bound}"
proof (rule set_eqI)
  fix w :: int32
  have rng: "\<And>x. sint lo \<le> x \<Longrightarrow> x < sint bound \<Longrightarrow> sint (word_of_int x :: int32) = x"
    using sint_lt [of bound] sint_ge [of lo] by (intro sint_word_of_int_range) auto
  show "w \<in> set (srange lo bound) \<longleftrightarrow> w \<in> {i. sint lo \<le> sint i \<and> sint i < sint bound}"
  proof
    assume "w \<in> set (srange lo bound)"
    then obtain x where "sint lo \<le> x" "x < sint bound" "w = word_of_int x"
      by (auto simp: srange_def)
    then show "w \<in> {i. sint lo \<le> sint i \<and> sint i < sint bound}"
      using rng [of x] by simp
  next
    assume "w \<in> {i. sint lo \<le> sint i \<and> sint i < sint bound}"
    then have "sint w \<in> set [sint lo .. sint bound - 1]" by simp
    then have "word_of_int (sint w) \<in> set (srange lo bound)"
      unfolding srange_def set_map by (rule imageI)
    then show "w \<in> set (srange lo bound)" by simp
  qed
qed

lemma fold_append_concat:
  "(\<And>x acc. f x acc = acc @ g x) \<Longrightarrow> fold f xs s = s @ concat (map g xs)"
  by (induction xs arbitrary: s) simp_all

lemma for_loop_append:
  "(\<And>x acc. body x acc = acc @ g x) \<Longrightarrow>
   for_loop lo bound body s = s @ concat (map g (srange lo bound))"
  unfolding for_loop_fold by (rule fold_append_concat)

lemma nonempty_or_nil: "(if length xs > 0 then xs else []) = xs"
  by (cases xs) simp_all

lemma find_coincidences_concat:
  "find_coincidences A B theta Nmin Nmax tolerance =
     (let R = srange Nmin (Nmax + 1) in
      concat (map (\<lambda>i. concat (map (\<lambda>j. concat (map (\<lambda>k. concat (map (\<lambda>l.
        if accepted A B theta tolerance i j k l then [[i, j, k, l]] else []) R)) R)) R)) R))"
proof -
  let ?R = "srange Nmin (Nmax + 1)"
  let ?g = "\<lambda>i j k l. if accepted A B theta tolerance i j k l then [[i, j, k, l]] else []"
  let ?body = "\<lambda>i j k l coincidences.
      if get_distance (basis_2x2_dot_2d_vector A [i, j])
           (rotate_2d_vector (basis_2x2_dot_2d_vector B [k, l]) theta) < tolerance
         \<and> \<not> (i = j \<and> j = k \<and> k = l)
      then coincidences @ [[i, j, k, l]] else coincidences"
  have b: "\<And>i j k l acc. ?body i j k l acc = acc @ ?g i j k l"
    by (simp add: accepted_def)
  have l4: "for_loop Nmin (Nmax + 1) (?body i j k) acc = acc @ concat (map (?g i j k) ?R)"
    for i j k acc
    by (rule for_loop_append [where g = "?g i j k"]) (rule b)
  have l3: "for_loop Nmin (Nmax + 1) (\<lambda>k. for_loop Nmin (Nmax + 1) (?body i j k)) acc
      = acc @ concat (map (\<lambda>k. concat (map (?g i j k) ?R)) ?R)" for i j acc
    by (rule for_loop_append [where g = "\<lambda>k. concat (map (?g i j k) ?R)"]) (rule l4)
  have l2: "for_loop Nmin (Nmax + 1)
        (\<lambda>j. for_loop Nmin (Nmax + 1) (\<lambda>k. for_loop Nmin (Nmax + 1) (?body i j k))) acc
      = acc @ concat (map (\<lambda>j. concat (map (\<lambda>k. concat (map (?g i j k) ?R)) ?R)) ?R)"
    for i acc
    by (rule for_loop_append
          [where g = "\<lambda>j. concat (map (\<lambda>k. concat (map (?g i j k) ?R)) ?R)"])
       (rule l3)
  have l1: "for_loop Nmin (Nmax + 1)
        (\<lambda>i. for_loop Nmin (Nmax + 1)
           (\<lambda>j. for_loop Nmin (Nmax + 1) (\<lambda>k. for_loop Nmin (Nmax + 1) (?body i j k)))) acc
      = acc @ concat (map (\<lambda>i. concat (map (\<lambda>j. concat (map (\<lambda>k.
          concat (map (?g i j k) ?R)) ?R)) ?R)) ?R)" for acc
    by (rule for_loop_append
          [where g = "\<lambda>i. concat (map (\<lambda>j. concat (map (\<lambda>k.
             concat (map (?g i j k) ?R)) ?R)) ?R)"])
       (rule l2)
  show ?thesis
    unfolding find_coincidences_def Let_def l1 nonempty_or_nil by simp
qed

lemma sint_window_bound:
  "sint (Nmax::int32) < 2 ^ 31 - 1 \<Longrightarrow> sint (Nmax + 1) = sint Nmax + 1"
proof -
  assume a: "sint Nmax < 2 ^ 31 - 1"
  have "- (2 ^ 31) \<le> sint Nmax" using sint_ge [of Nmax] by simp
  then have "signed_take_bit 31 (sint Nmax + 1) = sint Nmax + 1"
    using a by (simp add: signed_take_bit_int_eq_self)
  then show ?thesis by (simp add: sint_word_ariths)
qed

lemma set_window:
  "sint (Nmax::int32) < 2 ^ 31 - 1 \<Longrightarrow>
   set (srange Nmin (Nmax + 1)) = {x. Nmin \<le>s x \<and> x \<le>s Nmax}"
  by (auto simp: set_srange sint_window_bound word_sle_eq)

lemma find_coincidences_set:
  assumes "sint Nmax < 2 ^ 31 - 1"
  shows "set (find_coincidences A B theta Nmin Nmax tolerance) =
    {[i, j, k, l] | i j k l.
       i \<in> {x. Nmin \<le>s x \<and> x \<le>s Nmax} \<and> j \<in> {x. Nmin \<le>s x \<and> x \<le>s Nmax} \<and>
       k \<in> {x. Nmin \<le>s x \<and> x \<le>s Nmax} \<and> l \<in> {x. Nmin \<le>s x \<and> x \<le>s Nmax} \<and>
       accepted A B theta tolerance i j k l}"
  unfolding find_coincidences_concat Let_def set_window [OF assms, symmetric]
  by (auto split: if_splits)

lemma get_distance_nonneg: "0 \<le> get_distance a b"
  by (cases a; cases b) (simp add: get_distance_def)

lemma sorted_srange: "sorted_wrt (<s) (srange lo bound)"
proof -
  have rng: "sint (word_of_int x :: int32) = x" if "x \<in> set [sint lo .. sint bound - 1]" for x
    using that sint_lt [of bound] sint_ge [of lo] by (intro sint_word_of_int_range) auto
  have "sorted_wrt (\<lambda>x y. (word_of_int x :: int32) <s word_of_int y) [sint lo .. sint bound - 1]"
    by (rule sorted_wrt_mono_rel [OF _ sorted_wrt_upto]) (simp add: word_sless_alt rng)
  then show ?thesis by (simp add: srange_def sorted_wrt_map)
qed

lemma sorted_wrt_concat_map:
  assumes "sorted_wrt lt xs"
    and "\<And>x. x \<in> set xs \<Longrightarrow> sorted_wrt P (g x)"
    and "\<And>x y a b. lt x y \<Longrightarrow> a \<in> set (g x) \<Longrightarrow> b \<in> set (g y) \<Longrightarrow> P a b"
  shows "sorted_wrt P (concat (map g xs))"
  using assms by (induction xs) (auto simp: sorted_wrt_append)

lemma accepted_identity:
  assumes "0 < t" "t \<le> 1"
  shows "accepted ((1, 0), (0, 1)) ((1, 0), (0, 1)) 0 t i j k l \<longleftrightarrow>
         i = k \<and> j = l \<and> \<not> (i = j \<and> j = k \<and> k = l)"
proof -
  let ?D = "(sint i - sint k)\<^sup>2 + (sint j - sint l)\<^sup>2"
  have d: "get_distance (basis_2x2_dot_2d_vector ((1, 0), (0, 1)) [i, j])
             (rotate_2d_vector (basis_2x2_dot_2d_vector ((1, 0), (0, 1)) [k, l]) 0)
           = sqrt (real_of_int ?D)"
    by (simp add: get_distance_def basis_2x2_dot_2d_vector_def rotate_2d_vector_def)
  have "sqrt (real_of_int ?D) < t \<longleftrightarrow> i = k \<and> j = l"
  proof (cases "i = k \<and> j = l")
    case True
    then show ?thesis using assms by simp
  next
    case False
    then have "sint i \<noteq> sint k \<or> sint j \<noteq> sint l" by (auto simp: signed_word_eqI)
    then have "1 \<le> ?D"
      by (smt (verit) power2_less_eq_zero_iff sum_power2_ge_zero zero_le_power2)
    then have "1 \<le> real_of_int ?D" by linarith
    then have "1 \<le> sqrt (real_of_int ?D)" by simp
    then have "\<not> sqrt (real_of_int ?D) < t" using assms by linarith
    then show ?thesis using False by blast
  qed
  then show ?thesis unfolding accepted_def d by simp
qed

lemma srange_window: "srange (- 2) (2 + 1) = [- 2, - 1, 0, 1, 2]"
  by (simp add: srange_def upto.simps)

text \<open>
  The run of scenario A listed row by row: the 20 quadruples \<open>(i, j, i, j)\<close> with
  \<open>i \<noteq> j\<close>, in the order of the loops.
\<close>

lemma scenario_A_rows:
  assumes "0 < t" "t \<le> 1"
  shows "find_coincidences ((1, 0), (0, 1)) ((1, 0), (0, 1)) 0 (- 2) 2 t =
    [[- 2, - 1, - 2, - 1], [- 2, 0, - 2, 0], [- 2, 1, - 2, 1], [- 2, 2, - 2, 2],
     [- 1, - 2, - 1, - 2], [- 1, 0, - 1, 0], [- 1, 1, - 1, 1], [- 1, 2, - 1, 2],
     [0, - 2, 0, - 2], [0, - 1, 0, - 1], [0, 1, 0, 1], [0, 2, 0, 2],
     [1, - 2, 1, - 2], [1, - 1, 1, - 1], [1, 0, 1, 0], [1, 2, 1, 2],
     [2, - 2, 2, - 2], [2, - 1, 2, - 1], [2, 0, 2, 0], [2, 1, 2, 1]]"
  unfolding find_coincidences_concat Let_def accepted_identity [OF assms] srange_window
  by simp

subsection \<open>Claims about the coincidence search\<close>

text \<open>
  Claim C1, as amended. For all bases \<open>A\<close>, \<open>B\<close>, every angle and tolerance, and every
  window whose upper end \<open>Nmax\<close> is below the largest \<open>int\<close> (so that the loop bound
  \<open>Nmax + 1\<close> does not wrap): the rows of the output are exactly the quadruples
  \<open>[i, j, k, l]\<close> whose four indices lie in \<open>[Nmin, Nmax]\<close>, whose distance between
  \<open>Am\<close> and the rotated \<open>Bn\<close> is strictly below the tolerance, and whose indices are
  not all equal.
\<close>

theorem find_coincidences_iff:
  assumes "sint Nmax < 2 ^ 31 - 1"
  shows "set (find_coincidences A B theta Nmin Nmax tolerance) =
    {[i, j, k, l] | i j k l.
       Nmin \<le>s i \<and> i \<le>s Nmax \<and> Nmin \<le>s j \<and> j \<le>s Nmax \<and>
       Nmin \<le>s k \<and> k \<le>s Nmax \<and> Nmin \<le>s l \<and> l \<le>s Nmax \<and>
       get_distance (basis_2x2_dot_2d_vector A [i, j])
         (rotate_2d_vector (basis_2x2_dot_2d_vector B [k, l]) theta) < tolerance \<and>
       \<not> (i = j \<and> j = k \<and> k = l)}"
  unfolding find_coincidences_set [OF assms] accepted_def by simp

theorem find_coincidences_iff_witness:
  "sint (2::int32) < 2 ^ 31 - 1 \<and>
   [0, 1, 0, 1] \<in> set (find_coincidences ((1, 0), (0, 1)) ((1, 0), (0, 1)) 0 (- 2) 2 1) \<and>
   [0, 1, 1, 1] \<notin> set (find_coincidences ((1, 0), (0, 1)) ((1, 0), (0, 1)) 0 (- 2) 2 1) \<and>
   [1, 1, 1, 1] \<notin> set (find_coincidences ((1, 0), (0, 1)) ((1, 0), (0, 1)) 0 (- 2) 2 1)"
proof -
  have h: "sint (2::int32) < 2 ^ 31 - 1" by simp
  show ?thesis
    unfolding find_coincidences_iff [OF h]
    by (simp add: get_distance_def basis_2x2_dot_2d_vector_def rotate_2d_vector_def
          word_sle_eq)
qed

text \<open>
  Claim C1 as stated, for every window \<open>Nmin \<le> Nmax\<close>, fails at \<open>Nmax = 2147483647\<close>:
  \<open>Nmax + 1\<close> wraps to the smallest \<open>int\<close>, no loop body runs and the output is
  empty, although with zero bases every quadruple of the window is at distance 0.
\<close>

theorem find_coincidences_window_counterexample:
  "(2147483646::int32) \<le>s 2147483647 \<and>
   (2147483646::int32) \<le>s 2147483646 \<and> (2147483647::int32) \<le>s 2147483647 \<and>
   get_distance (basis_2x2_dot_2d_vector ((0, 0), (0, 0)) [2147483646, 2147483647])
     (rotate_2d_vector (basis_2x2_dot_2d_vector ((0, 0), (0, 0)) [2147483647, 2147483647]) 0)
     < 1 \<and>
   \<not> ((2147483646::int32) = 2147483647 \<and> (2147483647::int32) = 2147483647
        \<and> (2147483647::int32) = 2147483647) \<and>
   [2147483646, 2147483647, 2147483647, 2147483647]
     \<notin> set (find_coincidences ((0, 0), (0, 0)) ((0, 0), (0, 0)) 0 2147483646 2147483647 1)"
proof -
  have "find_coincidences ((0, 0), (0, 0)) ((0, 0), (0, 0)) 0 2147483646 2147483647 1 = []"
    unfolding find_coincidences_def Let_def by (subst for_loop.simps) simp
  then show ?thesis
    by (simp add: get_distance_def basis_2x2_dot_2d_vector_def rotate_2d_vector_def)
qed

text \<open>
  Claim C8. With both bases the identity matrix, \<open>theta = 0\<close>, the window \<open>[-2, 2]\<close>
  and a tolerance \<open>0 < t \<le> 1\<close>, the output holds exactly the quadruples of the window
  with \<open>i = k\<close> and \<open>j = l\<close> that are not all equal.
\<close>

theorem find_coincidences_identity:
  assumes "0 < t" "t \<le> 1"
  shows "set (find_coincidences ((1, 0), (0, 1)) ((1, 0), (0, 1)) 0 (- 2) 2 t) =
    {[i, j, k, l] | i j k l.
       - 2 \<le>s i \<and> i \<le>s 2 \<and> - 2 \<le>s j \<and> j \<le>s 2 \<and>
       - 2 \<le>s k \<and> k \<le>s 2 \<and> - 2 \<le>s l \<and> l \<le>s 2 \<and>
       i = k \<and> j = l \<and> \<not> (i = j \<and> j = k \<and> k = l)}"
proof -
  have "sint (2::int32) < 2 ^ 31 - 1" by simp
  then show ?thesis
    by (simp add: find_coincidences_set accepted_identity [OF assms])
qed

theorem find_coincidences_identity_witness:
  "(0::real) < 1 \<and> (1::real) \<le> 1 \<and>
   set (find_coincidences ((1, 0), (0, 1)) ((1, 0), (0, 1)) 0 (- 2) 2 1) =
    {[i, j, k, l] | i j k l.
       - 2 \<le>s i \<and> i \<le>s 2 \<and> - 2 \<le>s j \<and> j \<le>s 2 \<and>
       - 2 \<le>s k \<and> k \<le>s 2 \<and> - 2 \<le>s l \<and> l \<le>s 2 \<and>
       i = k \<and> j = l \<and> \<not> (i = j \<and> j = k \<and> k = l)}"
proof -
  have h1: "(0::real) < 1" and h2: "(1::real) \<le> 1" by simp_all
  show ?thesis
    by (intro conjI) (rule h1, rule h2, rule find_coincidences_identity [OF h1 h2])
qed

text \<open>
  Claim C9. Whatever the bases, the angle and the window, a tolerance that is zero or
  negative gives the empty output: the distance is never negative, so it is never
  strictly below such a tolerance.
\<close>

theorem find_coincidences_nonpositive_tolerance:
  assumes "tolerance \<le> 0"
  shows "find_coincidences A B theta Nmin Nmax tolerance = []"
proof -
  have "\<not> accepted A B theta tolerance i j k l" for i j k l
    using assms get_distance_nonneg
      [of "basis_2x2_dot_2d_vector A [i, j]"
          "rotate_2d_vector (basis_2x2_dot_2d_vector B [k, l]) theta"]
    by (simp add: accepted_def)
  then show ?thesis
    unfolding find_coincidences_concat Let_def by simp
qed

theorem find_coincidences_nonpositive_tolerance_witness:
  "(0::real) \<le> 0 \<and>
   find_coincidences ((1, 0), (0, 1)) ((1, 0), (0, 1)) 0 (- 2) 2 0 = []"
proof -
  have h: "(0::real) \<le> 0" by simp
  show ?thesis
    by (intro conjI) (rule h, rule find_coincidences_nonpositive_tolerance [OF h])
qed

text \<open>
  Claim C10. The rows of the output stand in strictly ascending lexicographic order of
  \<open>(i, j, k, l)\<close>: of any two rows, the earlier one is lexicographically smaller.
\<close>

theorem find_coincidences_sorted:
  "sorted_wrt lex_less (find_coincidences A B theta Nmin Nmax tolerance)"
proof -
  let ?R = "srange Nmin (Nmax + 1)"
  let ?g = "\<lambda>i j k l. if accepted A B theta tolerance i j k l then [[i, j, k, l]] else []"
  let ?G4 = "\<lambda>i j k. concat (map (?g i j k) ?R)"
  let ?G3 = "\<lambda>i j. concat (map (?G4 i j) ?R)"
  let ?G2 = "\<lambda>i. concat (map (?G3 i) ?R)"
  have e4: "\<exists>l. a = [i, j, k, l]" if "a \<in> set (?G4 i j k)" for a i j k
    using that by (auto split: if_splits)
  have e3: "\<exists>k l. a = [i, j, k, l]" if "a \<in> set (?G3 i j)" for a i j
  proof -
    from that obtain k where "a \<in> set (?G4 i j k)" by auto
    then show ?thesis using e4 by blast
  qed
  have e2: "\<exists>j k l. a = [i, j, k, l]" if "a \<in> set (?G2 i)" for a i
  proof -
    from that obtain j where "a \<in> set (?G3 i j)" by auto
    then show ?thesis using e3 by blast
  qed
  have s4: "sorted_wrt lex_less (?G4 i j k)" for i j k
    by (rule sorted_wrt_concat_map [OF sorted_srange]) (auto split: if_splits)
  have s3: "sorted_wrt lex_less (?G3 i j)" for i j
  proof (rule sorted_wrt_concat_map [OF sorted_srange s4])
    fix x y a b assume "x <s y" "a \<in> set (?G4 i j x)" "b \<in> set (?G4 i j y)"
    then show "lex_less a b" using e4 [of a i j x] e4 [of b i j y] by auto
  qed
  have s2: "sorted_wrt lex_less (?G2 i)" for i
  proof (rule sorted_wrt_concat_map [OF sorted_srange s3])
    fix x y a b assume "x <s y" "a \<in> set (?G3 i x)" "b \<in> set (?G3 i y)"
    then show "lex_less a b" using e3 [of a i x] e3 [of b i y] by auto
  qed
  have s1: "sorted_wrt lex_less (concat (map ?G2 ?R))"
  proof (rule sorted_wrt_concat_map [OF sorted_srange s2])
    fix x y a b assume "x <s y" "a \<in> set (?G2 x)" "b \<in> set (?G2 y)"
    then show "lex_less a b" using e2 [of a x] e2 [of b y] by auto
  qed
  show ?thesis unfolding find_coincidences_concat Let_def by (rule s1)
qed

theorem find_coincidences_sorted_witness:
  "sorted_wrt lex_less (find_coincidences ((1, 0), (0, 1)) ((1, 0), (0, 1)) 0 (- 2) 2 1)"
  by (rule find_coincidences_sorted)

section \<open>Properties of the unique pairs\<close>

lemma for_index_inv:
  assumes "for_index i n body s = Inr t" and "P s"
    and "\<And>j s s'. i \<le> j \<Longrightarrow> j < n \<Longrightarrow> P s \<Longrightarrow> body j s = Inr s' \<Longrightarrow> P s'"
  shows "P t"
  using assms
proof (induction i n body s rule: for_index.induct)
  case (1 i n body s)
  show ?case
  proof (cases "i < n")
    case True
    with "1.prems"(1) obtain s' where b: "body i s = Inr s'"
      and r: "for_index (i + 1) n body s' = Inr t"
      by (auto simp: for_index.simps [of i] split: sum.splits)
    have "P s'" using "1.prems"(3) [OF _ True "1.prems"(2) b] by simp
    moreover have "\<And>j s s'. i + 1 \<le> j \<Longrightarrow> j < n \<Longrightarrow> P s \<Longrightarrow> body j s = Inr s' \<Longrightarrow> P s'"
      using "1.prems"(3) by (meson Suc_leD Suc_eq_plus1 add_leD1)
    ultimately show ?thesis using "1.IH" [OF True b r] by blast
  next
    case False
    with "1.prems" show ?thesis by (simp add: for_index.simps [of i])
  qed
qed

lemma for_index_append:
  assumes "\<And>j acc. i \<le> j \<Longrightarrow> j < n \<Longrightarrow> body j acc = Inr (acc @ g j)"
  shows "for_index i n body s = Inr (s @ concat (map g [i..<n]))"
  using assms
proof (induction i n body s rule: for_index.induct)
  case (1 i n body s)
  show ?case
  proof (cases "i < n")
    case True
    have b: "body i s = Inr (s @ g i)" using "1.prems" True by simp
    have "for_index (i + 1) n body (s @ g i) = Inr ((s @ g i) @ concat (map g [i + 1..<n]))"
      using "1.prems" by (intro "1.IH" [OF True b]) simp
    then show ?thesis
      using True b by (simp add: for_index.simps [of i] upt_conv_Cons)
  next
    case False
    then show ?thesis by (simp add: for_index.simps [of i])
  qed
qed

lemma find_unique_pairs_kept:
  assumes "find_unique_pairs cs = Inr out" and "p \<in> set out"
  shows "kept cs p"
proof -
  let ?inner = "\<lambda>i j uniquePairs.
            if length (cs ! i) < 4 \<or> length (cs ! j) < 4
            then Inl OutOfRange
            else
              let m1 = cs ! i ! 0;
                  m2 = cs ! i ! 1;
                  n1 = cs ! i ! 2;
                  n2 = cs ! i ! 3;
                  m3 = cs ! j ! 0;
                  m4 = cs ! j ! 1;
                  n3 = cs ! j ! 2;
                  n4 = cs ! j ! 3;
                  detM = m1 * m4 - m2 * m3;
                  detN = n1 * n4 - n2 * n3
              in if 0 <s detM \<and> 0 <s detN
                 then
                   let subvec = [m1, m2, m3, m4, n1, n2, n3, n4];
                       gcd' = find_gcd subvec 8
                   in if \<bar>gcd'\<bar> = 1 then Inr (uniquePairs @ [subvec]) else Inr uniquePairs
                 else Inr uniquePairs"
  let ?P = "\<lambda>acc. \<forall>q \<in> set acc. kept cs q"
  from assms(1) obtain ups where run:
    "for_index 0 (length cs) (\<lambda>i. for_index (i + 1) (length cs) (?inner i)) [] = Inr ups"
    and out: "out = (if length ups > 0 then ups else [])"
    by (auto simp: find_unique_pairs_def split: sum.splits)
  have step: "?P s'" if "i < j" "j < length cs" "?P s" "?inner i j s = Inr s'" for i j s s'
  proof -
    have len: "4 \<le> length (cs ! i)" "4 \<le> length (cs ! j)"
      using that(4) by (auto split: if_splits)
    have "s' = s \<or> (s' = s @ [pair_at cs i j] \<and> kept cs (pair_at cs i j))"
      using that(1,2,4) len
      by (auto simp: Let_def pair_at_def kept_def split: if_splits)
    then show ?thesis using that(3) by auto
  qed
  have inner: "?P s'" if "i < length cs" "?P s"
    "for_index (i + 1) (length cs) (?inner i) s = Inr s'" for i s s'
    by (rule for_index_inv [OF that(3), where P = ?P, OF that(2)]) (rule step, simp_all)
  have "?P ups"
    by (rule for_index_inv [OF run, where P = ?P]) (simp, rule inner)
  then show ?thesis using assms(2) out by (auto split: if_splits)
qed


text \<open>
  On rows of at least four entries the function returns, and its output lists, for the
  positions \<open>i < j\<close> in the order of the loops, the pairs that pass the tests.
\<close>

lemma find_unique_pairs_concat:
  assumes "\<forall>r \<in> set cs. 4 \<le> length r"
  shows "find_unique_pairs cs =
    Inr (concat (map (\<lambda>i. concat (map (pair_rows cs i) [i + 1..<length cs])) [0..<length cs]))"
proof -
  let ?n = "length cs"
  let ?inner = "\<lambda>i j uniquePairs.
            if length (cs ! i) < 4 \<or> length (cs ! j) < 4
            then Inl OutOfRange
            else
              let m1 = cs ! i ! 0;
                  m2 = cs ! i ! 1;
                  n1 = cs ! i ! 2;
                  n2 = cs ! i ! 3;
                  m3 = cs ! j ! 0;
                  m4 = cs ! j ! 1;
                  n3 = cs ! j ! 2;
                  n4 = cs ! j ! 3;
                  detM = m1 * m4 - m2 * m3;
                  detN = n1 * n4 - n2 * n3
              in if 0 <s detM \<and> 0 <s detN
                 then
                   let subvec = [m1, m2, m3, m4, n1, n2, n3, n4];
                       gcd' = find_gcd subvec 8
                   in if \<bar>gcd'\<bar> = 1 then Inr (uniquePairs @ [subvec]) else Inr uniquePairs
                 else Inr uniquePairs"
  have len: "4 \<le> length (cs ! i)" if "i < ?n" for i
    using assms that by simp
  have step: "?inner i j acc = Inr (acc @ pair_rows cs i j)"
    if "i < ?n" "j < ?n" for i j and acc :: int2dvec_t
    using len [OF that(1)] len [OF that(2)]
    by (simp add: Let_def pair_rows_def pair_at_def)
  have inner: "for_index (i + 1) ?n (?inner i) acc
      = Inr (acc @ concat (map (pair_rows cs i) [i + 1..<?n]))"
    if "i < ?n" for i and acc :: int2dvec_t
    by (rule for_index_append) (rule step [OF that])
  have "for_index 0 ?n (\<lambda>i. for_index (i + 1) ?n (?inner i)) []
      = Inr ([] @ concat (map (\<lambda>i. concat (map (pair_rows cs i) [i + 1..<?n])) [0..<?n]))"
    by (rule for_index_append) (rule inner)
  then show ?thesis
    unfolding find_unique_pairs_def by (simp add: nonempty_or_nil)
qed

lemma find_gcd_Gcd: "find_gcd arr n = Gcd (sint ` set (take n arr))"
proof -
  have "find_gcd arr n = fold gcd (map sint (take n arr)) 0"
    by (simp add: find_gcd_def fold_map comp_def)
  also have "\<dots> = Gcd (set (map sint (take n arr)))"
    by (rule Gcd_set_eq_fold [symmetric])
  finally show ?thesis by simp
qed

lemma take4: "4 \<le> length xs \<Longrightarrow> take 4 xs = [xs ! 0, xs ! 1, xs ! 2, xs ! 3]"
proof -
  assume "4 \<le> length xs"
  then obtain a b c d ys where "xs = a # b # c # d # ys"
    by (auto simp: numeral_eq_Suc Suc_le_length_iff)
  then show ?thesis by simp
qed

lemma sint_det:
  fixes a b c d :: int32
  assumes "- (2 ^ 31) \<le> sint a * sint d - sint b * sint c"
    and "sint a * sint d - sint b * sint c < 2 ^ 31"
  shows "sint (a * d - b * c) = sint a * sint d - sint b * sint c"
proof -
  have "sint (a * d - b * c) = signed_take_bit 31 (sint (a * d) - sint (b * c))"
    by (simp add: sint_word_ariths)
  also have "\<dots> = signed_take_bit 31
      (signed_take_bit 31 (sint a * sint d) - signed_take_bit 31 (sint b * sint c))"
    by (simp add: sint_word_ariths)
  also have "\<dots> = signed_take_bit 31 (sint a * sint d - sint b * sint c)"
    by (simp add: signed_take_bit_diff)
  also have "\<dots> = sint a * sint d - sint b * sint c"
    using assms by (simp add: signed_take_bit_int_eq_self)
  finally show ?thesis .
qed

lemma even_sint_double: "even (sint (2 * y :: int32))"
  by (simp add: sint_word_ariths even_signed_take_bit_iff)

lemma unique_pairs_not_all_even:
  assumes "find_unique_pairs cs = Inr out" and "q \<in> set out"
  shows "\<not> (\<forall>x \<in> set q. even (sint x))"
proof
  assume ev: "\<forall>x \<in> set q. even (sint x)"
  from find_unique_pairs_kept [OF assms] obtain i j where
    q: "q = pair_at cs i j" and g: "\<bar>find_gcd q 8\<bar> = 1"
    unfolding kept_def by blast
  have "take 8 q = q" using q by (simp add: pair_at_def)
  then have "Gcd (sint ` set q) = 1" using g by (simp add: find_gcd_Gcd)
  moreover have "2 dvd Gcd (sint ` set q)"
    using ev by (intro Gcd_greatest) auto
  ultimately show False by simp
qed

text \<open>
  Claim C2, as amended. For every input list on which the function returns, every
  returned 8-tuple \<open>(m1, m2, m3, m4, n1, n2, n3, n4)\<close> is formed from two distinct rows
  of the input, the row at an earlier position giving \<open>(m1, m2, n1, n2)\<close> and a row at a
  later position giving \<open>(m3, m4, n3, n4)\<close>; both determinants, computed in 32-bit
  \<open>int\<close> as the code does, are positive; whenever the integer \<open>m1 * m4 - m2 * m3\<close>
  (or \<open>n1 * n4 - n2 * n3\<close>) lies in the range of \<open>int\<close> it is itself positive; and
  the greatest common divisor of the eight components is 1.
\<close>

theorem find_unique_pairs_sound:
  assumes "find_unique_pairs coincidences = Inr uniquePairs" and "p \<in> set uniquePairs"
  shows "\<exists>i j m1 m2 m3 m4 n1 n2 n3 n4.
     i < j \<and> j < length coincidences \<and>
     take 4 (coincidences ! i) = [m1, m2, n1, n2] \<and>
     take 4 (coincidences ! j) = [m3, m4, n3, n4] \<and>
     p = [m1, m2, m3, m4, n1, n2, n3, n4] \<and>
     0 <s m1 * m4 - m2 * m3 \<and> 0 <s n1 * n4 - n2 * n3 \<and>
     (- (2 ^ 31) \<le> sint m1 * sint m4 - sint m2 * sint m3 \<and>
        sint m1 * sint m4 - sint m2 * sint m3 < 2 ^ 31
        \<longrightarrow> 0 < sint m1 * sint m4 - sint m2 * sint m3) \<and>
     (- (2 ^ 31) \<le> sint n1 * sint n4 - sint n2 * sint n3 \<and>
        sint n1 * sint n4 - sint n2 * sint n3 < 2 ^ 31
        \<longrightarrow> 0 < sint n1 * sint n4 - sint n2 * sint n3) \<and>
     Gcd {sint m1, sint m2, sint m3, sint m4, sint n1, sint n2, sint n3, sint n4} = 1"
proof -
  from find_unique_pairs_kept [OF assms] obtain i j where ij: "i < j" "j < length coincidences"
    and len: "4 \<le> length (coincidences ! i)" "4 \<le> length (coincidences ! j)"
    and p: "p = pair_at coincidences i j"
    and dM: "0 <s p ! 0 * p ! 3 - p ! 1 * p ! 2"
    and dN: "0 <s p ! 4 * p ! 7 - p ! 5 * p ! 6"
    and g: "\<bar>find_gcd p 8\<bar> = 1"
    unfolding kept_def by blast
  let ?ci = "coincidences ! i" and ?cj = "coincidences ! j"
  let ?m1 = "?ci ! 0" and ?m2 = "?ci ! 1" and ?n1 = "?ci ! 2" and ?n2 = "?ci ! 3"
  let ?m3 = "?cj ! 0" and ?m4 = "?cj ! 1" and ?n3 = "?cj ! 2" and ?n4 = "?cj ! 3"
  have p': "p = [?m1, ?m2, ?m3, ?m4, ?n1, ?n2, ?n3, ?n4]"
    using p by (simp add: pair_at_def)
  have wM: "0 <s ?m1 * ?m4 - ?m2 * ?m3" using dM by (simp add: p')
  have wN: "0 <s ?n1 * ?n4 - ?n2 * ?n3" using dN by (simp add: p')
  have iM: "0 < sint ?m1 * sint ?m4 - sint ?m2 * sint ?m3"
    if "- (2 ^ 31) \<le> sint ?m1 * sint ?m4 - sint ?m2 * sint ?m3"
      "sint ?m1 * sint ?m4 - sint ?m2 * sint ?m3 < 2 ^ 31"
    using wM sint_det [OF that] by (simp add: word_sless_alt)
  have iN: "0 < sint ?n1 * sint ?n4 - sint ?n2 * sint ?n3"
    if "- (2 ^ 31) \<le> sint ?n1 * sint ?n4 - sint ?n2 * sint ?n3"
      "sint ?n1 * sint ?n4 - sint ?n2 * sint ?n3 < 2 ^ 31"
    using wN sint_det [OF that] by (simp add: word_sless_alt)
  have "Gcd (sint ` set (take 8 p)) = 1"
    using g by (simp add: find_gcd_Gcd)
  then have G: "Gcd {sint ?m1, sint ?m2, sint ?m3, sint ?m4,
      sint ?n1, sint ?n2, sint ?n3, sint ?n4} = 1"
    by (simp add: p')
  show ?thesis
    using ij take4 [OF len(1)] take4 [OF len(2)] p' wM wN iM iN G by blast
qed

theorem find_unique_pairs_sound_witness:
  "find_unique_pairs [[1, 0, 1, 0], [0, 1, 0, 1]] = Inr [[1, 0, 0, 1, 1, 0, 0, 1]] \<and>
   [1, 0, 0, 1, 1, 0, 0, 1] \<in> set [[1, 0, 0, 1, 1, 0, 0, 1 :: int32]] \<and>
   (\<exists>i j (m1::int32) m2 m3 m4 n1 n2 n3 n4.
     i < j \<and> j < length [[1, 0, 1, 0], [0, 1, 0, 1 :: int32]] \<and>
     take 4 ([[1, 0, 1, 0], [0, 1, 0, 1]] ! i) = [m1, m2, n1, n2] \<and>
     take 4 ([[1, 0, 1, 0], [0, 1, 0, 1]] ! j) = [m3, m4, n3, n4] \<and>
     [1, 0, 0, 1, 1, 0, 0, 1] = [m1, m2, m3, m4, n1, n2, n3, n4] \<and>
     0 <s m1 * m4 - m2 * m3 \<and> 0 <s n1 * n4 - n2 * n3 \<and>
     (- (2 ^ 31) \<le> sint m1 * sint m4 - sint m2 * sint m3 \<and>
        sint m1 * sint m4 - sint m2 * sint m3 < 2 ^ 31
        \<longrightarrow> 0 < sint m1 * sint m4 - sint m2 * sint m3) \<and>
     (- (2 ^ 31) \<le> sint n1 * sint n4 - sint n2 * sint n3 \<and>
        sint n1 * sint n4 - sint n2 * sint n3 < 2 ^ 31
        \<longrightarrow> 0 < sint n1 * sint n4 - sint n2 * sint n3) \<and>
     Gcd {sint m1, sint m2, sint m3, sint m4, sint n1, sint n2, sint n3, sint n4} = 1)"
proof -
  have h1: "find_unique_pairs [[1, 0, 1, 0], [0, 1, 0, 1]] = Inr [[1, 0, 0, 1, 1, 0, 0, 1]]"
    by (simp add: find_unique_pairs_def for_index.simps find_gcd_def Let_def word_sless_alt)
  have h2: "[1, 0, 0, 1, 1, 0, 0, 1] \<in> set [[1, 0, 0, 1, 1, 0, 0, 1 :: int32]]"
    by simp
  show ?thesis
    by (rule conjI [OF h1 conjI [OF h2 find_unique_pairs_sound [OF h1 h2]]])
qed

text \<open>
  Claim C2 as stated, with the determinant an integer, fails where the product
  overflows: the rows \<open>(65536, 1, 1, 0)\<close> and \<open>(-1, -65536, 0, 1)\<close> give
  \<open>m1 * m4 - m2 * m3 = -4294967295\<close>, which wraps to 1 in \<open>int\<close>, and the tuple is
  returned although its determinant is negative.
\<close>

theorem find_unique_pairs_overflow_counterexample:
  "find_unique_pairs [[65536, 1, 1, 0], [- 1, - 65536, 0, 1]]
     = Inr [[65536, 1, - 1, - 65536, 1, 0, 0, 1]] \<and>
   \<not> (0 < (65536::int) * (- 65536) - 1 * (- 1))"
  by (simp add: find_unique_pairs_def for_index.simps find_gcd_def Let_def word_sless_alt)

text \<open>
  Claim C6. If an 8-tuple is returned for some input, its componentwise double is
  returned for no input: neither the doubled tuple as \<open>int\<close> values, nor any tuple
  whose components are the doubled integers.
\<close>

theorem doubled_pair_rejected:
  assumes "find_unique_pairs coincidences = Inr uniquePairs" and "p \<in> set uniquePairs"
    and "find_unique_pairs coincidences' = Inr uniquePairs'"
  shows "map (\<lambda>x. 2 * x) p \<notin> set uniquePairs' \<and>
         (\<forall>q \<in> set uniquePairs'. map sint q \<noteq> map (\<lambda>x. 2 * sint x) p)"
proof (intro conjI ballI notI)
  assume "map (\<lambda>x. 2 * x) p \<in> set uniquePairs'"
  from unique_pairs_not_all_even [OF assms(3) this] show False
    by (auto simp: even_sint_double)
next
  fix q assume q: "q \<in> set uniquePairs'" and eq: "map sint q = map (\<lambda>x. 2 * sint x) p"
  have "even (sint x)" if "x \<in> set q" for x
  proof -
    from that have "sint x \<in> set (map sint q)" by simp
    then show ?thesis unfolding eq by auto
  qed
  with unique_pairs_not_all_even [OF assms(3) q] show False by blast
qed

theorem doubled_pair_rejected_witness:
  "find_unique_pairs [[1, 0, 1, 0], [0, 1, 0, 1], [2, 0, 2, 0], [0, 2, 0, 2]]
     = Inr [[1, 0, 0, 1, 1, 0, 0, 1], [1, 0, 0, 2, 1, 0, 0, 2]] \<and>
   [1, 0, 0, 1, 1, 0, 0, 1] \<in> set [[1, 0, 0, 1, 1, 0, 0, 1], [1, 0, 0, 2, 1, 0, 0, 2 :: int32]] \<and>
   map (\<lambda>x. 2 * x) [1, 0, 0, 1, 1, 0, 0, 1]
     \<notin> set [[1, 0, 0, 1, 1, 0, 0, 1], [1, 0, 0, 2, 1, 0, 0, 2 :: int32]]"
proof -
  have h1: "find_unique_pairs [[1, 0, 1, 0], [0, 1, 0, 1], [2, 0, 2, 0], [0, 2, 0, 2]]
     = Inr [[1, 0, 0, 1, 1, 0, 0, 1], [1, 0, 0, 2, 1, 0, 0, 2]]"
    by (simp add: find_unique_pairs_def for_index.simps find_gcd_def Let_def word_sless_alt)
  have h2: "[1, 0, 0, 1, 1, 0, 0, 1]
      \<in> set [[1, 0, 0, 1, 1, 0, 0, 1], [1, 0, 0, 2, 1, 0, 0, 2 :: int32]]"
    by simp
  show ?thesis
    by (rule conjI [OF h1 conjI [OF h2 conjunct1 [OF doubled_pair_rejected [OF h1 h2 h1]]]])
qed

section \<open>Properties of the supercell builder\<close>

lemma for_each_append:
  assumes "\<And>x acc. x \<in> set xs \<Longrightarrow> body x acc = Inr (acc @ g x)"
  shows "for_each xs body s = Inr (s @ concat (map g xs))"
  using assms by (induction xs arbitrary: s) simp_all

lemma concat_map_nth: "concat (map (\<lambda>j. h (xs ! j)) [0..<length xs]) = concat (map h xs)"
proof -
  have "map (\<lambda>j. h (xs ! j)) [0..<length xs] = map h (map (\<lambda>j. xs ! j) [0..<length xs])"
    by simp
  then show ?thesis by (simp only: map_nth)
qed

lemma concat_if_filter:
  "concat (map (\<lambda>x. if P (f x) then [f x] else []) xs) = filter P (map f xs)"
  by (induction xs) simp_all

lemma build_all_supercells_concat:
  assumes "\<forall>entry \<in> set AnglesMN. \<forall>row \<in> set (snd entry). 8 \<le> length row"
  shows "build_all_supercells ops bottom top' AnglesMN weight distance no_idealize symprec
      angle_tolerance =
    Inr (concat (map (\<lambda>entry. filter (\<lambda>c. spaceGroup c \<noteq> 0)
      (map (candidate ops bottom top' weight distance no_idealize symprec angle_tolerance
         (fst entry)) (snd entry))) AnglesMN))"
proof -
  let ?cand = "candidate ops bottom top' weight distance no_idealize symprec angle_tolerance"
  let ?h = "\<lambda>theta row. if spaceGroup (?cand theta row) \<noteq> 0 then [?cand theta row] else []"
  let ?inner = "\<lambda>theta pairs j stacks.
            let row = pairs ! j
            in if length row < 8 then Inl OutOfRange
               else
                 let M = [[row ! 0, row ! 1, 0], [row ! 2, row ! 3, 0], [0, 0, 1]];
                     N = [[row ! 4, row ! 5, 0], [row ! 6, row ! 7, 0], [0, 0, 1]];
                     bottomLayer = make_supercell ops bottom M;
                     topLayer = make_supercell ops top' N;
                     topLayerRot = rotate_atoms_around_z ops topLayer theta;
                     interface = stack_atoms ops bottomLayer topLayerRot weight distance;
                     standardized = standardize ops interface 1 no_idealize symprec
                        angle_tolerance;
                     spacegroup = fst standardized
                 in if spacegroup \<noteq> 0
                    then Inr (stacks @
                      [\<lparr>bottomLayer = bottomLayer, topLayer = topLayerRot,
                        stack = snd standardized, angle = theta, matrixM = M, matrixN = N,
                        spaceGroup = spacegroup\<rparr>])
                    else Inr stacks"
  have step: "?inner theta pairs j stacks = Inr (stacks @ ?h theta (pairs ! j))"
    if "8 \<le> length (pairs ! j)" for theta pairs j and stacks :: "'a Interface list"
    using that by (simp add: Let_def candidate_def supercell_matrices_def)
  have entry: "for_index 0 (length (snd entry)) (?inner (fst entry) (snd entry)) stacks
      = Inr (stacks @ filter (\<lambda>c. spaceGroup c \<noteq> 0) (map (?cand (fst entry)) (snd entry)))"
    if "entry \<in> set AnglesMN" for entry and stacks :: "'a Interface list"
  proof -
    have "for_index 0 (length (snd entry)) (?inner (fst entry) (snd entry)) stacks
      = Inr (stacks @ concat (map (\<lambda>j. ?h (fst entry) (snd entry ! j)) [0..<length (snd entry)]))"
      using assms that by (intro for_index_append step) simp
    also have "concat (map (\<lambda>j. ?h (fst entry) (snd entry ! j)) [0..<length (snd entry)])
      = concat (map (?h (fst entry)) (snd entry))"
      by (rule concat_map_nth)
    also have "\<dots> = filter (\<lambda>c. spaceGroup c \<noteq> 0) (map (?cand (fst entry)) (snd entry))"
      by (rule concat_if_filter)
    finally show ?thesis .
  qed
  have "for_each AnglesMN (\<lambda>entry. for_index 0 (length (snd entry))
          (?inner (fst entry) (snd entry))) []
      = Inr ([] @ concat (map (\<lambda>entry. filter (\<lambda>c. spaceGroup c \<noteq> 0)
          (map (?cand (fst entry)) (snd entry))) AnglesMN))"
    by (rule for_each_append) (rule entry)
  then show ?thesis
    unfolding build_all_supercells_def Let_def by simp
qed


lemma spaceGroup_candidate:
  "spaceGroup (candidate ops bottom top' weight distance no_idealize symprec angle_tolerance
      theta row) =
   fst (standardize ops
     (stack_atoms ops
        (make_supercell ops bottom [[row ! 0, row ! 1, 0], [row ! 2, row ! 3, 0], [0, 0, 1]])
        (rotate_atoms_around_z ops
           (make_supercell ops top' [[row ! 4, row ! 5, 0], [row ! 6, row ! 7, 0], [0, 0, 1]])
           theta)
        weight distance)
     1 no_idealize symprec angle_tolerance)"
  by (simp add: candidate_def supercell_matrices_def Let_def)

text \<open>
  Claim C3. For every angle-to-pairs map whose pairs are 8-tuples, the function returns
  without a fault, and its output is, entry by entry and pair by pair in order, the
  interface built for the pair whenever the standardization of the stacked structure
  returned a nonzero space-group number, and nothing for a pair whose standardization
  returned 0; so every interface of the output carries a nonzero space-group number.
\<close>

theorem build_all_supercells_filter:
  assumes "\<forall>entry \<in> set AnglesMN. \<forall>row \<in> set (snd entry). 8 \<le> length row"
  shows "\<exists>stacks.
     build_all_supercells ops bottom top' AnglesMN weight distance no_idealize symprec
       angle_tolerance = Inr stacks \<and>
     stacks = concat (map (\<lambda>entry. filter (\<lambda>c. spaceGroup c \<noteq> 0)
       (map (candidate ops bottom top' weight distance no_idealize symprec angle_tolerance
          (fst entry)) (snd entry))) AnglesMN) \<and>
     (\<forall>s \<in> set stacks. spaceGroup s \<noteq> 0)"
  unfolding build_all_supercells_concat [OF assms] by auto

theorem build_all_supercells_filter_witness:
  "\<exists>stacks.
     build_all_supercells example_ops 1 2
       [(0, [[1, 0, 0, 1, 1, 0, 0, 1], [2, 0, 0, 1, 1, 0, 0, 1]])] 0 0 0 0 0 = Inr stacks \<and>
     stacks = concat (map (\<lambda>entry. filter (\<lambda>c. spaceGroup c \<noteq> 0)
       (map (candidate example_ops 1 2 0 0 0 0 0 (fst entry)) (snd entry)))
       [(0, [[1, 0, 0, 1, 1, 0, 0, 1], [2, 0, 0, 1, 1, 0, 0, 1]])]) \<and>
     (\<forall>s \<in> set stacks. spaceGroup s \<noteq> 0)"
proof -
  have h: "\<forall>entry \<in> set [(0::real, [[1, 0, 0, 1, 1, 0, 0, 1], [2, 0, 0, 1, 1, 0, 0, 1 :: int32]])].
      \<forall>row \<in> set (snd entry). 8 \<le> length row"
    by simp
  show ?thesis
    by (rule build_all_supercells_filter [OF h])
qed

text \<open>
  The same run evaluated: of the two pairs, the first standardizes to space group 5 and
  is emitted, the second standardizes to 0 and is dropped.
\<close>

lemma build_all_supercells_example:
  "build_all_supercells example_ops 1 2
     [(0, [[1, 0, 0, 1, 1, 0, 0, 1], [2, 0, 0, 1, 1, 0, 0, 1]])] 0 0 0 0 0
   = Inr [example_interface 3 0 5]"
  by (simp add: build_all_supercells_def for_index.simps example_ops_def Let_def
        example_interface_def)

text \<open>
  Claim C7. Degenerate inputs give empty outputs and no fault: a coincidence list with
  fewer than two rows gives no pair, and an empty angle-to-pairs map gives no interface.
\<close>

theorem degenerate_inputs:
  "(length coincidences < 2 \<longrightarrow> find_unique_pairs coincidences = Inr []) \<and>
   build_all_supercells ops bottom top' [] weight distance no_idealize symprec
     angle_tolerance = Inr []"
proof (intro conjI impI)
  assume "length coincidences < 2"
  then consider "coincidences = []" | c where "coincidences = [c]"
    by (cases coincidences; cases "tl coincidences") auto
  then show "find_unique_pairs coincidences = Inr []"
    by cases (simp_all add: find_unique_pairs_def for_index.simps)
next
  show "build_all_supercells ops bottom top' [] weight distance no_idealize symprec
     angle_tolerance = Inr []"
    by (simp add: build_all_supercells_def)
qed

theorem degenerate_inputs_witness:
  "length [[1, 0, 1, 0 :: int32]] < 2 \<and>
   find_unique_pairs [[1, 0, 1, 0]] = Inr [] \<and>
   build_all_supercells example_ops 1 2 [] 0 0 0 0 0 = Inr []"
proof -
  have h: "length [[1, 0, 1, 0 :: int32]] < 2" by simp
  from degenerate_inputs [where coincidences = "[[1, 0, 1, 0]]" and ops = example_ops
      and bottom = 1 and top' = 2 and weight = 0 and distance = 0 and no_idealize = 0
      and symprec = 0 and angle_tolerance = 0] h
  show ?thesis by blast
qed

section \<open>Properties of the deduplication\<close>

lemma set_insert_subset: "set (set_insert lt x s) \<subseteq> insert x (set s)"
  by (induction s) auto

lemma length_set_insert: "length (set_insert lt x s) \<le> Suc (length s)"
  by (induction s) auto

lemma keys_set_insert:
  assumes "\<And>a b. lt a b \<longleftrightarrow> k a < (k b :: 'k :: linorder)"
  shows "k ` set (set_insert lt x s) = insert (k x) (k ` set s)"
proof (induction s)
  case Nil
  show ?case by simp
next
  case (Cons y ys)
  show ?case
  proof (cases "lt x y \<or> lt y x")
    case True
    then show ?thesis using Cons by auto
  next
    case False
    then have "k x = k y" using assms by auto
    then show ?thesis using False by auto
  qed
qed

lemma sorted_set_insert:
  assumes "\<And>a b. lt a b \<longleftrightarrow> k a < (k b :: 'k :: linorder)"
    and "sorted_wrt lt s"
  shows "sorted_wrt lt (set_insert lt x s)"
  using assms(2)
proof (induction s)
  case Nil
  show ?case by simp
next
  case (Cons y ys)
  have sub: "set (set_insert lt x ys) \<subseteq> insert x (set ys)" by (rule set_insert_subset)
  show ?case
  proof (cases "lt x y")
    case True
    then have "\<forall>z \<in> set ys. lt x z" using Cons.prems assms(1) by auto
    then show ?thesis using True Cons.prems by simp
  next
    case False
    then show ?thesis using Cons sub by auto
  qed
qed

lemma set_insert_last:
  assumes "\<And>a b. lt a b \<longleftrightarrow> k a < (k b :: 'k :: linorder)"
    and "\<forall>y \<in> set s. lt y x"
  shows "set_insert lt x s = s @ [x]"
  using assms(2)
proof (induction s)
  case Nil
  show ?case by simp
next
  case (Cons y ys)
  then have "lt y x" by simp
  then have "\<not> lt x y" using assms(1) by auto
  then show ?case using Cons by simp
qed

lemma fold_set_insert_sorted:
  assumes "\<And>a b. lt a b \<longleftrightarrow> k a < (k b :: 'k :: linorder)"
    and "sorted_wrt lt (s @ xs)"
  shows "fold (set_insert lt) xs s = s @ xs"
  using assms(2)
proof (induction xs arbitrary: s)
  case Nil
  show ?case by simp
next
  case (Cons x xs)
  have "\<forall>y \<in> set s. lt y x" using Cons.prems by (auto simp: sorted_wrt_append)
  then have "set_insert lt x s = s @ [x]" by (rule set_insert_last [OF assms(1)])
  moreover have "sorted_wrt lt ((s @ [x]) @ xs)" using Cons.prems by simp
  ultimately show ?case using Cons.IH [of "s @ [x]"] by simp
qed

lemma fold_set_insert_props:
  assumes "\<And>a b. lt a b \<longleftrightarrow> k a < (k b :: 'k :: linorder)"
  shows "set (fold (set_insert lt) xs s) \<subseteq> set xs \<union> set s"
    and "length (fold (set_insert lt) xs s) \<le> length xs + length s"
    and "k ` set (fold (set_insert lt) xs s) = k ` set xs \<union> k ` set s"
    and "sorted_wrt lt s \<Longrightarrow> sorted_wrt lt (fold (set_insert lt) xs s)"
proof -
  show "set (fold (set_insert lt) xs s) \<subseteq> set xs \<union> set s"
  proof (induction xs arbitrary: s)
    case (Cons x xs)
    show ?case using Cons [of "set_insert lt x s"] set_insert_subset [of lt x s] by auto
  qed simp
  show "length (fold (set_insert lt) xs s) \<le> length xs + length s"
  proof (induction xs arbitrary: s)
    case (Cons x xs)
    show ?case using Cons [of "set_insert lt x s"] length_set_insert [of lt x s] by simp
  qed simp
  show "k ` set (fold (set_insert lt) xs s) = k ` set xs \<union> k ` set s"
  proof (induction xs arbitrary: s)
    case (Cons x xs)
    show ?case using Cons [of "set_insert lt x s"] keys_set_insert [OF assms, where x = x and s = s] by auto
  qed simp
  show "sorted_wrt lt s \<Longrightarrow> sorted_wrt lt (fold (set_insert lt) xs s)"
  proof (induction xs arbitrary: s)
    case (Cons x xs)
    show ?case using Cons.IH [of "set_insert lt x s"] sorted_set_insert [OF assms Cons.prems]
      by simp
  qed simp
qed

lemma interface_less_key:
  "interface_less ops a b \<longleftrightarrow> equivalence_key ops a < equivalence_key ops b"
  by (simp add: interface_less_def)

lemma filter_supercells_fold:
  "filter_supercells ops stacks = fold (set_insert (interface_less ops)) stacks []"
  by (simp add: filter_supercells_def set_of_range_def)

lemma filter_supercells_sorted:
  "sorted_wrt (interface_less ops) (filter_supercells ops stacks)"
  unfolding filter_supercells_fold
  by (rule fold_set_insert_props(4) [where k = "equivalence_key ops", OF interface_less_key])
     simp

lemma sorted_keys_distinct:
  assumes "sorted_wrt (\<lambda>a b. k a < (k b :: 'k :: linorder)) xs"
  shows "distinct (map k xs)"
  using assms by (induction xs) auto

text \<open>
  Claim C4. The output is no longer than the input, every output element is an element
  of the input, the equivalence keys of the output elements are pairwise distinct, and
  every input interface whose key occurs exactly once in the input has an interface
  with that key in the output.
\<close>

theorem filter_supercells_dedup:
  "length (filter_supercells ops stacks) \<le> length stacks \<and>
   set (filter_supercells ops stacks) \<subseteq> set stacks \<and>
   distinct (map (equivalence_key ops) (filter_supercells ops stacks)) \<and>
   (\<forall>x \<in> set stacks.
      length (filter (\<lambda>y. equivalence_key ops y = equivalence_key ops x) stacks) = 1 \<longrightarrow>
      (\<exists>y \<in> set (filter_supercells ops stacks). equivalence_key ops y = equivalence_key ops x))"
proof (intro conjI ballI impI)
  show "length (filter_supercells ops stacks) \<le> length stacks"
    using fold_set_insert_props(2) [where lt = "interface_less ops" and k = "equivalence_key ops"
        and xs = stacks and s = "[]", OF interface_less_key]
    by (simp add: filter_supercells_fold)
  show "set (filter_supercells ops stacks) \<subseteq> set stacks"
    using fold_set_insert_props(1) [where lt = "interface_less ops" and k = "equivalence_key ops"
        and xs = stacks and s = "[]", OF interface_less_key]
    by (simp add: filter_supercells_fold)
  have "sorted_wrt (\<lambda>a b. equivalence_key ops a < equivalence_key ops b)
      (filter_supercells ops stacks)"
    using filter_supercells_sorted [of ops stacks] by (simp add: interface_less_def [abs_def])
  then show "distinct (map (equivalence_key ops) (filter_supercells ops stacks))"
    by (rule sorted_keys_distinct)
next
  fix x assume "x \<in> set stacks"
  then have "equivalence_key ops x \<in> equivalence_key ops ` set (filter_supercells ops stacks)"
    using fold_set_insert_props(3) [where lt = "interface_less ops" and k = "equivalence_key ops"
        and xs = stacks and s = "[]", OF interface_less_key]
    by (simp add: filter_supercells_fold)
  then show "\<exists>y \<in> set (filter_supercells ops stacks).
      equivalence_key ops y = equivalence_key ops x"
    by auto
qed

theorem filter_supercells_dedup_witness:
  "example_interface 4 0 7
     \<in> set [example_interface 4 0 7, example_interface 3 0 5, example_interface 3 1 5] \<and>
   length (filter (\<lambda>y. equivalence_key example_ops y
        = equivalence_key example_ops (example_interface 4 0 7))
      [example_interface 4 0 7, example_interface 3 0 5, example_interface 3 1 5]) = 1 \<and>
   (\<exists>y \<in> set (filter_supercells example_ops
        [example_interface 4 0 7, example_interface 3 0 5, example_interface 3 1 5]).
      equivalence_key example_ops y = equivalence_key example_ops (example_interface 4 0 7))"
proof -
  let ?X = "[example_interface 4 0 7, example_interface 3 0 5, example_interface 3 1 5]"
  have h1: "example_interface 4 0 7 \<in> set ?X" by simp
  have h2: "length (filter (\<lambda>y. equivalence_key example_ops y
      = equivalence_key example_ops (example_interface 4 0 7)) ?X) = 1"
    by (simp add: equivalence_key_def example_ops_def example_interface_def)
  from filter_supercells_dedup [of example_ops ?X] h1 h2 show ?thesis by blast
qed

text \<open>
  The same run evaluated: the two interfaces with the key \<open>(5, 1, 3)\<close> collapse to
  the one inserted first, and the output is in ascending order of the key.
\<close>

lemma filter_supercells_example:
  "filter_supercells example_ops
     [example_interface 4 0 7, example_interface 3 0 5, example_interface 3 1 5]
   = [example_interface 3 0 5, example_interface 4 0 7]"
  by (simp add: filter_supercells_def set_of_range_def interface_less_def equivalence_key_def
        example_ops_def example_interface_def)

text \<open>
  Claim C5. The filter is idempotent: filtering a filtered list changes nothing.
\<close>

theorem filter_supercells_idempotent:
  "filter_supercells ops (filter_supercells ops X) = filter_supercells ops X"
proof -
  have "fold (set_insert (interface_less ops)) (filter_supercells ops X) []
      = [] @ filter_supercells ops X"
    by (rule fold_set_insert_sorted [where k = "equivalence_key ops", OF interface_less_key])
       (simp add: filter_supercells_sorted)
  then show ?thesis by (simp add: filter_supercells_fold [of ops "filter_supercells ops X"])
qed

theorem filter_supercells_idempotent_witness:
  "filter_supercells example_ops (filter_supercells example_ops
     [example_interface 4 0 7, example_interface 3 0 5, example_interface 3 1 5])
   = filter_supercells example_ops
     [example_interface 4 0 7, example_interface 3 0 5, example_interface 3 1 5]"
  by (rule filter_supercells_idempotent)

end
